theory Spec2Isabelle
  imports Main "HOL-Library.Sublist" "HOL-Library.AList"
begin

section \<open>Text primitives of the Python source\<close>

text \<open>
  Python strings are modelled as \<open>string\<close> (lists of \<open>char\<close>); a \<open>char\<close> is a code
  point below 256, that is ASCII and the Latin-1 supplement. \<open>lower_char\<close> is
  \<open>str.lower\<close> on these code points: the 26 capital letters go to their small forms,
  the Latin-1 capitals (0xC0 to 0xDE, the multiplication sign 0xD7 apart) go 0x20 up, and
  every other character stays.
\<close>

definition lower_char :: "char \<Rightarrow> char" where
  "lower_char c =
     (case map_of (zip ''ABCDEFGHIJKLMNOPQRSTUVWXYZ'' ''abcdefghijklmnopqrstuvwxyz'') c of
        None \<Rightarrow>
          (let n = of_char c :: nat
           in if 0xC0 \<le> n \<and> n \<le> 0xDE \<and> n \<noteq> 0xD7 then char_of (n + 0x20) else c)
      | Some d \<Rightarrow> d)"

definition lower :: "string \<Rightarrow> string" where
  "lower s = map lower_char s"

text \<open>\<open>w in s\<close> on two strings: \<open>w\<close> occurs in \<open>s\<close> as a contiguous substring.\<close>

definition str_in :: "string \<Rightarrow> string \<Rightarrow> bool" where
  "str_in w s = sublist w s"

text \<open>
  \<open>s.split(sep)\<close> for a one-character separator: the segments between the occurrences
  of \<open>sep\<close>, empty segments included; the result always has at least one element.
\<close>

fun split_str :: "char \<Rightarrow> string \<Rightarrow> string list" where
  "split_str sep [] = [[]]"
| "split_str sep (c # cs) =
     (if c = sep then [] # split_str sep cs
      else (case split_str sep cs of
              [] \<Rightarrow> [[c]]
            | w # ws \<Rightarrow> (c # w) # ws))"


section \<open>Classification and summary\<close>

definition product_support_words :: "string list" where
  "product_support_words =
     [''bug'', ''error'', ''not working'', ''broken'', ''crash'', ''issue'', ''problem'',
      ''feature'', ''how to'']"

definition billing_words :: "string list" where
  "billing_words =
     [''bill'', ''payment'', ''charge'', ''invoice'', ''refund'', ''subscription'',
      ''pricing'', ''cost'']"

text \<open>
  \<open>classify_and_summarize_email(email_content, sender)\<close> returns the pair
  \<open>(category, summary)\<close>. The index \<open>[0]\<close> into the result of \<open>split\<close> is \<open>hd\<close>:
  \<open>split_str\<close> never returns the empty list (lemma \<open>split_str_not_Nil\<close>), so the
  read is always in range.
\<close>

definition classify_and_summarize_email :: "string \<Rightarrow> string \<Rightarrow> string \<times> string" where
  "classify_and_summarize_email email_content sender_name =
     (let email_lower = lower email_content;
          category_name =
            (if list_ex (\<lambda>word. str_in word email_lower) product_support_words
             then ''Product Support''
             else if list_ex (\<lambda>word. str_in word email_lower) billing_words
             then ''Billing''
             else ''General Inquiry'');
          first_sentence = take 100 (hd (split_str (CHR ''.'') email_content));
          summary_text =
            ''Customer '' @ sender_name @ '' needs help with '' @ lower category_name
              @ '': '' @ first_sentence @ ''...''
      in (category_name, summary_text))"

section \<open>Keyword extraction\<close>

text \<open>
  The pattern of \<open>extract_keywords\<close> is \<open>\b[a-zA-Z]+\b\<close> on a \<open>str\<close>.
  \<open>is_letter\<close> is the class \<open>[a-zA-Z]\<close>. \<open>is_word_char\<close> is \<open>\w\<close>, which on a
  \<open>str\<close> is the Unicode class of alphanumerics and the underscore: below 256 these are
  the ASCII letters, digits and underscore, and the Latin-1 letters and digits 0xAA, 0xB2,
  0xB3, 0xB5, 0xB9, 0xBA, 0xBC to 0xBE, 0xC0 to 0xD6, 0xD8 to 0xF6 and 0xF8 to 0xFF.
  \<open>\w\<close> decides where \<open>\b\<close> holds: between a word character and a character that is
  not one, the two ends of the string counting as not a word character.
\<close>

definition is_letter :: "char \<Rightarrow> bool" where
  "is_letter c = (c \<in> set ''abcdefghijklmnopqrstuvwxyzABCDEFGHIJKLMNOPQRSTUVWXYZ'')"

definition is_word_char :: "char \<Rightarrow> bool" where
  "is_word_char c =
     (is_letter c \<or> c \<in> set ''0123456789_''
      \<or> (let n = of_char c :: nat
          in n \<in> {0xAA, 0xB2, 0xB3, 0xB5, 0xB9, 0xBA, 0xBC, 0xBD, 0xBE}
             \<or> (0xC0 \<le> n \<and> n \<le> 0xD6) \<or> (0xD8 \<le> n \<and> n \<le> 0xF6) \<or> 0xF8 \<le> n))"

definition word_boundary :: "char option \<Rightarrow> char option \<Rightarrow> bool" where
  "word_boundary prev nxt =
     ((case prev of None \<Rightarrow> False | Some c \<Rightarrow> is_word_char c)
        \<noteq> (case nxt of None \<Rightarrow> False | Some c \<Rightarrow> is_word_char c))"

text \<open>
  The backtracking matcher for \<open>[a-zA-Z]+\b\<close> once a first letter \<open>c\<close> has been
  consumed: it takes further letters greedily and, where the rest of the pattern fails
  after them, gives the last one back and tries \<open>\b\<close> at the shorter length. The result
  is the number of characters consumed after \<open>c\<close>.
\<close>

fun match_letters :: "char \<Rightarrow> string \<Rightarrow> nat option" where
  "match_letters c [] = (if word_boundary (Some c) None then Some 0 else None)"
| "match_letters c (d # ds) =
     (if is_letter d
      then (case match_letters d ds of
              Some k \<Rightarrow> Some (Suc k)
            | None \<Rightarrow> if word_boundary (Some c) (Some d) then Some 0 else None)
      else if word_boundary (Some c) (Some d) then Some 0 else None)"

text \<open>
  A match attempt of the whole pattern at a position whose preceding character is
  \<open>prev\<close> and whose text starts with \<open>c\<close>.
\<close>

definition match_at :: "char option \<Rightarrow> char \<Rightarrow> string \<Rightarrow> nat option" where
  "match_at prev c cs =
     (if word_boundary prev (Some c) \<and> is_letter c then match_letters c cs else None)"

text \<open>
  \<open>re.findall\<close>: scan from the left; after a match continue behind it, otherwise move
  one character on.
\<close>

fun findall :: "char option \<Rightarrow> string \<Rightarrow> string list" where
  "findall prev [] = []"
| "findall prev (c # cs) =
     (case match_at prev c cs of
        None \<Rightarrow> findall (Some c) cs
      | Some k \<Rightarrow> (c # take k cs) # findall (Some (last (c # take k cs))) (drop k cs))"

definition re_findall_words :: "string \<Rightarrow> string list" where
  "re_findall_words s = findall None s"

definition stop_words :: "string set" where
  "stop_words =
     {''the'', ''a'', ''an'', ''and'', ''or'', ''but'', ''in'', ''on'', ''at'', ''to'', ''for'',
      ''of'', ''with'', ''by'', ''is'', ''are'', ''was'', ''were'', ''be'', ''been'', ''have'',
      ''has'', ''had'', ''will'', ''would'', ''could'', ''should'', ''may'', ''might'', ''can'',
      ''i'', ''you'', ''he'', ''she'', ''it'', ''we'', ''they'', ''my'', ''your'', ''his'',
      ''her'', ''our'', ''their''}"

definition extract_keywords :: "string \<Rightarrow> string list" where
  "extract_keywords text_in =
     (let words = re_findall_words (lower text_in)
      in filter (\<lambda>word. length word > 3 \<and> word \<notin> stop_words) words)"

section \<open>The triage pipeline\<close>

text \<open>
  The dictionary built by \<open>process_email\<close>, one field per key; the key
  \<open>keywords\<close> is the field \<open>keywords_f\<close>.
\<close>

record processed_email =
  timestamp :: string
  sender :: string
  subject :: string
  category :: string
  summary :: string
  keywords_f :: "string list"
  channel :: string

record EmailTriageSystem =
  categories :: "string list"
  processed_emails :: "processed_email list"

datatype error = KeyError string | ValueError "string list" | OSError string

text \<open>\<open>__init__\<close>.\<close>

definition init_system :: EmailTriageSystem where
  "init_system =
     \<lparr>categories = [''Product Support'', ''Billing'', ''General Inquiry''],
      processed_emails = []\<rparr>"

text \<open>\<open>d[k]\<close> on a dictionary raises \<open>KeyError\<close> for a missing key.\<close>

definition dict_get :: "(string \<rightharpoonup> 'v) \<Rightarrow> string \<Rightarrow> error + 'v" where
  "dict_get d k = (case d k of None \<Rightarrow> Inl (KeyError k) | Some v \<Rightarrow> Inr v)"

text \<open>\<open>s.replace(a, b)\<close> for single characters \<open>a\<close> and \<open>b\<close>.\<close>

definition replace_char :: "char \<Rightarrow> char \<Rightarrow> string \<Rightarrow> string" where
  "replace_char a b s = map (\<lambda>c. if c = a then b else c) s"

text \<open>
  \<open>process_email(email_data)\<close>. The reading of the clock, \<open>datetime.now().isoformat()\<close>,
  is the argument \<open>now\<close>. The result pairs what the call returns (or raises) with the
  system state after it.
\<close>

definition process_email ::
  "(string \<rightharpoonup> string) \<Rightarrow> string \<Rightarrow> EmailTriageSystem
     \<Rightarrow> (error + processed_email) \<times> EmailTriageSystem" where
  "process_email email_data now s =
     (case dict_get email_data ''sender'' of
        Inl e \<Rightarrow> (Inl e, s)
      | Inr sender_v \<Rightarrow>
     (case dict_get email_data ''subject'' of
        Inl e \<Rightarrow> (Inl e, s)
      | Inr subject_v \<Rightarrow>
     (case dict_get email_data ''content'' of
        Inl e \<Rightarrow> (Inl e, s)
      | Inr content_v \<Rightarrow>
         (let full_content = subject_v @ '' '' @ content_v;
              (category_v, summary_v) = classify_and_summarize_email full_content sender_v;
              keywords_v = extract_keywords full_content;
              processed =
                \<lparr>timestamp = now, sender = sender_v, subject = subject_v,
                 category = category_v, summary = summary_v, keywords_f = keywords_v,
                 channel = ''#'' @ replace_char (CHR '' '') (CHR ''-'') (lower category_v)\<rparr>
          in (Inr processed, s\<lparr>processed_emails := processed_emails s @ [processed]\<rparr>)))))"

section \<open>Keyword analytics\<close>

text \<open>
  A \<open>Counter\<close> is a dictionary, which keeps its keys in the order of their first
  insertion: an association list under \<open>AList.update\<close> (replace in place, or append).
  \<open>Counter(iterable)\<close> adds one to the count of each element in turn.
\<close>

definition Counter :: "string list \<Rightarrow> (string \<times> nat) list" where
  "Counter elems =
     fold (\<lambda>elem mapping.
             AList.update elem ((case map_of mapping elem of None \<Rightarrow> 0 | Some n \<Rightarrow> n) + 1) mapping)
       elems []"

text \<open>
  \<open>most_common(n)\<close> is \<open>heapq.nlargest(n, items, key=count)\<close>, which the library
  documents as \<open>sorted(items, key=count, reverse=True)[:n]\<close>: a stable sort by
  descending count, here an ascending stable sort on the negated count.
\<close>

definition most_common :: "nat \<Rightarrow> (string \<times> nat) list \<Rightarrow> (string \<times> nat) list" where
  "most_common n items = take n (sort_key (\<lambda>(word, count). - int count) items)"

text \<open>The inner part of the loop body: the keywords of one category's emails.\<close>

definition category_keywords :: "EmailTriageSystem \<Rightarrow> string \<Rightarrow> string list" where
  "category_keywords s c =
     (let category_emails = filter (\<lambda>email. category email = c) (processed_emails s)
      in fold (\<lambda>email all_keywords. all_keywords @ keywords_f email) category_emails [])"

definition generate_keyword_analytics :: "EmailTriageSystem \<Rightarrow> (string \<times> string list) list" where
  "generate_keyword_analytics s =
     fold (\<lambda>c analytics.
             (let all_keywords = category_keywords s c;
                  keyword_counts = Counter all_keywords;
                  top_keywords = map fst (most_common 5 keyword_counts)
              in AList.update c top_keywords analytics))
       (categories s) []"

section \<open>The CSV sink\<close>











section \<open>Notions of the specification\<close>



text \<open>
  The position of the first occurrence of \<open>x\<close> in \<open>xs\<close>, and the ranking of the
  analytics: more occurrences first, among equal counts the earlier first occurrence.
\<close>

definition first_occurrence :: "'a list \<Rightarrow> 'a \<Rightarrow> nat" where
  "first_occurrence xs x = length (takeWhile (\<lambda>y. y \<noteq> x) xs)"

definition ranks_before :: "string list \<Rightarrow> string \<Rightarrow> string \<Rightarrow> bool" where
  "ranks_before ks a b =
     (count_list ks b < count_list ks a
      \<or> (count_list ks a = count_list ks b \<and> first_occurrence ks a < first_occurrence ks b))"

section \<open>Properties of the text primitives\<close>

lemma split_str_not_Nil: "split_str sep s \<noteq> []"
  by (induction s) (auto split: list.splits)

lemma hd_split_str: "hd (split_str sep s) = takeWhile (\<lambda>c. c \<noteq> sep) s"
proof (induction s)
  case Nil
  show ?case by simp
next
  case (Cons c cs)
  show ?case
  proof (cases "c = sep")
    case True
    then show ?thesis by simp
  next
    case False
    with Cons split_str_not_Nil [of sep cs] show ?thesis
      by (cases "split_str sep cs") auto
  qed
qed

lemma str_in_code [simp]:
  "str_in [] s = True"
  "str_in (x # xs) [] = False"
  "str_in (x # xs) (y # ys) = (prefix (x # xs) (y # ys) \<or> str_in (x # xs) ys)"
  by (simp_all add: str_in_def sublist_Cons_right)

lemmas text_eval =
  lower_def lower_char_def is_letter_def is_word_char_def word_boundary_def match_at_def
  re_findall_words_def extract_keywords_def stop_words_def

section \<open>Properties of the pipeline step\<close>

text \<open>What \<open>process_email\<close> does on a record that has the three keys.\<close>

lemma process_email_ok:
  assumes "d ''sender'' = Some a" and "d ''subject'' = Some b" and "d ''content'' = Some c"
  shows "process_email d now s =
    (let p = \<lparr>timestamp = now, sender = a, subject = b,
               category = fst (classify_and_summarize_email (b @ '' '' @ c) a),
               summary = snd (classify_and_summarize_email (b @ '' '' @ c) a),
               keywords_f = extract_keywords (b @ '' '' @ c),
               channel = ''#'' @ replace_char (CHR '' '') (CHR ''-'')
                  (lower (fst (classify_and_summarize_email (b @ '' '' @ c) a)))\<rparr>
     in (Inr p, s\<lparr>processed_emails := processed_emails s @ [p]\<rparr>))"
  using assms by (simp add: process_email_def dict_get_def Let_def split: prod.splits)

text \<open>No operation changes the list of categories that \<open>__init__\<close> sets.\<close>

lemma process_email_categories: "categories (snd (process_email d now s)) = categories s"
  by (simp add: process_email_def dict_get_def Let_def split: option.splits prod.splits)

section \<open>Classification priority\<close>

text \<open>
  C1. A text whose lowercased form contains a Product-Support keyword and a Billing
  keyword as substrings is classified as Product Support, never as Billing.
\<close>

theorem classify_priority:
  assumes "\<exists>w \<in> set product_support_words. str_in w (lower t)"
    and "\<exists>w \<in> set billing_words. str_in w (lower t)"
  shows "fst (classify_and_summarize_email t sender_name) = ''Product Support''
    \<and> fst (classify_and_summarize_email t sender_name) \<noteq> ''Billing''"
  using assms(1) by (simp add: classify_and_summarize_email_def Let_def list_ex_iff)

theorem classify_priority_witness:
  "(\<exists>w \<in> set product_support_words. str_in w (lower ''Bug: please refund me''))
   \<and> (\<exists>w \<in> set billing_words. str_in w (lower ''Bug: please refund me''))
   \<and> fst (classify_and_summarize_email ''Bug: please refund me'' ''a@x.com'') = ''Product Support''"
proof -
  have h1: "\<exists>w \<in> set product_support_words. str_in w (lower ''Bug: please refund me'')"
    by (simp add: product_support_words_def lower_def lower_char_def)
  have h2: "\<exists>w \<in> set billing_words. str_in w (lower ''Bug: please refund me'')"
    by (simp add: billing_words_def lower_def lower_char_def)
  from classify_priority [OF h1 h2, of "''a@x.com''"] h1 h2 show ?thesis
    by simp
qed

section \<open>The summary template\<close>

text \<open>
  C7. The summary is the text \<open>Customer\<close>, the sender, \<open>needs help with\<close>, the
  lowercased category, a colon, the first 100 characters of the part of the text before
  its first full stop, and three dots. That part is \<open>a\<close> when the text is \<open>a\<close>, a
  full stop and anything, with no full stop in \<open>a\<close>; it is the whole text when the
  text has no full stop.
\<close>

theorem summary_format:
  "snd (classify_and_summarize_email t sender_name) =
     ''Customer '' @ sender_name @ '' needs help with ''
       @ lower (fst (classify_and_summarize_email t sender_name)) @ '': ''
       @ take 100 (takeWhile (\<lambda>c. c \<noteq> CHR ''.'') t) @ ''...''
   \<and> (\<forall>a b. t = a @ CHR ''.'' # b \<and> CHR ''.'' \<notin> set a
         \<longrightarrow> takeWhile (\<lambda>c. c \<noteq> CHR ''.'') t = a)
   \<and> (CHR ''.'' \<notin> set t \<longrightarrow> takeWhile (\<lambda>c. c \<noteq> CHR ''.'') t = t)"
proof (intro conjI allI impI)
  show "snd (classify_and_summarize_email t sender_name) =
     ''Customer '' @ sender_name @ '' needs help with ''
       @ lower (fst (classify_and_summarize_email t sender_name)) @ '': ''
       @ take 100 (takeWhile (\<lambda>c. c \<noteq> CHR ''.'') t) @ ''...''"
    by (simp add: classify_and_summarize_email_def Let_def hd_split_str)
next
  fix a b
  assume "t = a @ CHR ''.'' # b \<and> CHR ''.'' \<notin> set a"
  then have "t = a @ CHR ''.'' # b" and "\<forall>x \<in> set a. x \<noteq> CHR ''.''"
    by auto
  then show "takeWhile (\<lambda>c. c \<noteq> CHR ''.'') t = a"
    by simp
next
  assume "CHR ''.'' \<notin> set t"
  then show "takeWhile (\<lambda>c. c \<noteq> CHR ''.'') t = t"
    by (auto simp: takeWhile_eq_all_conv)
qed

theorem summary_format_witness:
  "snd (classify_and_summarize_email ''Refund please. Thanks'' ''bob'') =
     ''Customer bob needs help with billing: Refund please...''
   \<and> snd (classify_and_summarize_email ''Hello there'' ''eve'') =
     ''Customer eve needs help with general inquiry: Hello there...''"
proof -
  have c1: "fst (classify_and_summarize_email ''Refund please. Thanks'' ''bob'') = ''Billing''"
    by (simp add: classify_and_summarize_email_def Let_def product_support_words_def
        billing_words_def lower_def lower_char_def)
  have c2: "fst (classify_and_summarize_email ''Hello there'' ''eve'') = ''General Inquiry''"
    by (simp add: classify_and_summarize_email_def Let_def product_support_words_def
        billing_words_def lower_def lower_char_def)
  from summary_format [of "''Refund please. Thanks''" "''bob''"]
    summary_format [of "''Hello there''" "''eve''"] c1 c2
  show ?thesis
    by (simp add: lower_def lower_char_def)
qed

section \<open>Keyword filtering\<close>

text \<open>
  C4. Every token that \<open>extract_keywords\<close> returns is longer than 3 characters and
  is not a stop word.
\<close>

theorem extract_keywords_filtered:
  "\<forall>w \<in> set (extract_keywords t). 3 < length w \<and> w \<notin> stop_words"
  by (simp add: extract_keywords_def Let_def)

theorem extract_keywords_filtered_witness:
  "extract_keywords ''The login page is broken'' = [''login'', ''page'', ''broken'']
   \<and> list_all (\<lambda>w. 3 < length w \<and> w \<notin> stop_words) (extract_keywords ''The login page is broken'')"
proof -
  have "extract_keywords ''The login page is broken'' = [''login'', ''page'', ''broken'']"
    by (simp add: text_eval)
  with extract_keywords_filtered [of "''The login page is broken''"] show ?thesis
    by (simp add: list_all_iff)
qed

section \<open>Malformed input\<close>

text \<open>
  C8. On a record that lacks one of the keys \<open>sender\<close>, \<open>subject\<close>, \<open>content\<close>,
  \<open>process_email\<close> raises \<open>KeyError\<close> for a key that is missing, and the system
  state, the log included, is the one before the call.
\<close>

theorem process_email_missing_field:
  assumes "''sender'' \<notin> dom d \<or> ''subject'' \<notin> dom d \<or> ''content'' \<notin> dom d"
  shows "\<exists>k. k \<in> {''sender'', ''subject'', ''content''} \<and> k \<notin> dom d
           \<and> process_email d now s = (Inl (KeyError k), s)"
proof (cases "d ''sender''")
  case None
  then show ?thesis by (auto simp: process_email_def dict_get_def)
next
  case sender: (Some a)
  show ?thesis
  proof (cases "d ''subject''")
    case None
    with sender show ?thesis by (auto simp: process_email_def dict_get_def)
  next
    case subject: (Some b)
    with sender assms have "d ''content'' = None" by auto
    with sender subject show ?thesis by (auto simp: process_email_def dict_get_def)
  qed
qed

theorem process_email_missing_field_witness:
  "''subject'' \<notin> dom [''sender'' \<mapsto> ''a@x.com'', ''content'' \<mapsto> ''Hello'']
   \<and> (\<exists>k. k \<in> {''sender'', ''subject'', ''content''}
         \<and> k \<notin> dom [''sender'' \<mapsto> ''a@x.com'', ''content'' \<mapsto> ''Hello'']
         \<and> process_email [''sender'' \<mapsto> ''a@x.com'', ''content'' \<mapsto> ''Hello''] ''T0'' init_system
             = (Inl (KeyError k), init_system))"
proof -
  have h: "''subject'' \<notin> dom [''sender'' \<mapsto> ''a@x.com'', ''content'' \<mapsto> ''Hello'']"
    by simp
  then have "''sender'' \<notin> dom [''sender'' \<mapsto> ''a@x.com'', ''content'' \<mapsto> ''Hello'']
      \<or> ''subject'' \<notin> dom [''sender'' \<mapsto> ''a@x.com'', ''content'' \<mapsto> ''Hello'']
      \<or> ''content'' \<notin> dom [''sender'' \<mapsto> ''a@x.com'', ''content'' \<mapsto> ''Hello'']"
    by blast
  from process_email_missing_field [OF this, of "''T0''" init_system] h show ?thesis
    by blast
qed

section \<open>The log is append-only\<close>

text \<open>
  C9. On a record that has the three keys, \<open>process_email\<close> returns a processed
  email and the log afterwards is the log before with that one email added at the end:
  its first entries are the old log, and it is one longer.
\<close>

theorem process_email_appends:
  assumes "{''sender'', ''subject'', ''content''} \<subseteq> dom d"
  shows "\<exists>p. process_email d now s = (Inr p, s\<lparr>processed_emails := processed_emails s @ [p]\<rparr>)
           \<and> take (length (processed_emails s)) (processed_emails (snd (process_email d now s)))
               = processed_emails s
           \<and> length (processed_emails (snd (process_email d now s)))
               = Suc (length (processed_emails s))"
proof -
  from assms obtain a b c where
    "d ''sender'' = Some a" "d ''subject'' = Some b" "d ''content'' = Some c"
    by auto
  from process_email_ok [OF this, of now s] show ?thesis
    by (simp add: Let_def)
qed

theorem process_email_appends_witness:
  "{''sender'', ''subject'', ''content''}
     \<subseteq> dom [''sender'' \<mapsto> ''a@x.com'', ''subject'' \<mapsto> ''Hi'', ''content'' \<mapsto> ''Hello'']
   \<and> (\<exists>p. process_email [''sender'' \<mapsto> ''a@x.com'', ''subject'' \<mapsto> ''Hi'', ''content'' \<mapsto> ''Hello'']
             ''T0'' init_system
           = (Inr p, init_system\<lparr>processed_emails := [p]\<rparr>))"
proof -
  have h: "{''sender'', ''subject'', ''content''}
     \<subseteq> dom [''sender'' \<mapsto> ''a@x.com'', ''subject'' \<mapsto> ''Hi'', ''content'' \<mapsto> ''Hello'']"
    by simp
  from process_email_appends [OF h, of "''T0''" init_system] h show ?thesis
    by (auto simp: init_system_def)
qed

section \<open>Independence of state and clock\<close>

text \<open>
  C10. Two calls of \<open>process_email\<close> on the same well-formed record, in any two
  system states and at any two clock readings, both return a processed email, and the
  two agree on sender, subject, category, summary, keywords and channel.
\<close>

theorem process_email_deterministic:
  assumes "{''sender'', ''subject'', ''content''} \<subseteq> dom d"
  shows "\<exists>p1 p2. fst (process_email d now1 s1) = Inr p1 \<and> fst (process_email d now2 s2) = Inr p2
           \<and> sender p1 = sender p2 \<and> subject p1 = subject p2 \<and> category p1 = category p2
           \<and> summary p1 = summary p2 \<and> keywords_f p1 = keywords_f p2 \<and> channel p1 = channel p2"
proof -
  from assms obtain a b c where
    "d ''sender'' = Some a" "d ''subject'' = Some b" "d ''content'' = Some c"
    by auto
  from process_email_ok [OF this, of now1 s1] process_email_ok [OF this, of now2 s2]
  show ?thesis
    by (simp add: Let_def)
qed

theorem process_email_deterministic_witness:
  "{''sender'', ''subject'', ''content''}
     \<subseteq> dom [''sender'' \<mapsto> ''a@x.com'', ''subject'' \<mapsto> ''Hi'', ''content'' \<mapsto> ''Hello'']
   \<and> (\<exists>p1 p2.
        fst (process_email [''sender'' \<mapsto> ''a@x.com'', ''subject'' \<mapsto> ''Hi'', ''content'' \<mapsto> ''Hello'']
               ''T0'' init_system) = Inr p1
      \<and> fst (process_email [''sender'' \<mapsto> ''a@x.com'', ''subject'' \<mapsto> ''Hi'', ''content'' \<mapsto> ''Hello'']
               ''T1''
               (snd (process_email
                  [''sender'' \<mapsto> ''a@x.com'', ''subject'' \<mapsto> ''Hi'', ''content'' \<mapsto> ''Hello'']
                  ''T0'' init_system))) = Inr p2
      \<and> sender p1 = sender p2 \<and> subject p1 = subject p2 \<and> category p1 = category p2
      \<and> summary p1 = summary p2 \<and> keywords_f p1 = keywords_f p2 \<and> channel p1 = channel p2)"
proof -
  have h: "{''sender'', ''subject'', ''content''}
     \<subseteq> dom [''sender'' \<mapsto> ''a@x.com'', ''subject'' \<mapsto> ''Hi'', ''content'' \<mapsto> ''Hello'']"
    by simp
  from process_email_deterministic [OF h, of "''T0''" init_system "''T1''"
      "snd (process_email
         [''sender'' \<mapsto> ''a@x.com'', ''subject'' \<mapsto> ''Hi'', ''content'' \<mapsto> ''Hello'']
         ''T0'' init_system)"] h
  show ?thesis
    by blast
qed

section \<open>The analytics mapping has the three categories\<close>

lemma fold_append_concat: "fold (\<lambda>x acc. acc @ f x) xs acc0 = acc0 @ concat (map f xs)"
  by (induction xs arbitrary: acc0) simp_all

lemma category_keywords_concat:
  "category_keywords s c =
     concat (map keywords_f (filter (\<lambda>email. category email = c) (processed_emails s)))"
  by (simp add: category_keywords_def fold_append_concat)

lemma map_of_fold_update:
  "map_of (fold (\<lambda>c a. AList.update c (g c) a) cs a0) k =
     (if k \<in> set cs then Some (g k) else map_of a0 k)"
  by (induction cs arbitrary: a0) (auto simp: update_conv')

lemma analytics_lookup:
  "c \<in> set (categories s) \<Longrightarrow>
     map_of (generate_keyword_analytics s) c =
       Some (map fst (most_common 5 (Counter (category_keywords s c))))"
  by (simp add: generate_keyword_analytics_def Let_def map_of_fold_update)

lemma analytics_keys:
  "categories s = categories init_system \<Longrightarrow>
     map fst (generate_keyword_analytics s) = [''Product Support'', ''Billing'', ''General Inquiry'']"
  by (simp add: generate_keyword_analytics_def init_system_def Let_def)

text \<open>
  C6. In a system whose category list is the one \<open>__init__\<close> sets, the mapping that
  \<open>generate_keyword_analytics\<close> returns has exactly the keys Product Support, Billing
  and General Inquiry, and a category with no email in the log maps to the empty list.
\<close>

theorem analytics_all_categories:
  assumes "categories s = categories init_system"
  shows "map fst (generate_keyword_analytics s) = [''Product Support'', ''Billing'', ''General Inquiry'']
    \<and> (\<forall>c \<in> set (categories s).
          (\<forall>e \<in> set (processed_emails s). category e \<noteq> c)
            \<longrightarrow> map_of (generate_keyword_analytics s) c = Some [])"
proof (intro conjI ballI impI)
  from assms show "map fst (generate_keyword_analytics s)
      = [''Product Support'', ''Billing'', ''General Inquiry'']"
    by (rule analytics_keys)
next
  fix c
  assume c: "c \<in> set (categories s)"
    and none: "\<forall>e \<in> set (processed_emails s). category e \<noteq> c"
  from none have "filter (\<lambda>email. category email = c) (processed_emails s) = []"
    by (simp add: filter_empty_conv)
  then have "category_keywords s c = []"
    by (simp add: category_keywords_concat)
  then have "map fst (most_common 5 (Counter (category_keywords s c))) = []"
    by (simp add: Counter_def most_common_def)
  with analytics_lookup [OF c] show "map_of (generate_keyword_analytics s) c = Some []"
    by simp
qed

theorem analytics_all_categories_witness:
  "categories
     (init_system\<lparr>processed_emails :=
        [\<lparr>timestamp = ''T0'', sender = ''a@x.com'', subject = ''Refund'', category = ''Billing'',
          summary = ''S0'', keywords_f = [''refund'', ''charge'', ''refund''],
          channel = ''#billing''\<rparr>]\<rparr>)
     = categories init_system
   \<and> generate_keyword_analytics
     (init_system\<lparr>processed_emails :=
        [\<lparr>timestamp = ''T0'', sender = ''a@x.com'', subject = ''Refund'', category = ''Billing'',
          summary = ''S0'', keywords_f = [''refund'', ''charge'', ''refund''],
          channel = ''#billing''\<rparr>]\<rparr>)
     = [(''Product Support'', []), (''Billing'', [''refund'', ''charge'']),
        (''General Inquiry'', [])]
   \<and> generate_keyword_analytics init_system
     = [(''Product Support'', []), (''Billing'', []), (''General Inquiry'', [])]"
  using analytics_all_categories [of "init_system\<lparr>processed_emails :=
        [\<lparr>timestamp = ''T0'', sender = ''a@x.com'', subject = ''Refund'', category = ''Billing'',
          summary = ''S0'', keywords_f = [''refund'', ''charge'', ''refund''],
          channel = ''#billing''\<rparr>]\<rparr>"]
  by (simp add: generate_keyword_analytics_def init_system_def Let_def category_keywords_def
      Counter_def most_common_def)

section \<open>What \<open>save_to_csv\<close> writes\<close>








section \<open>What the tokenizer matches\<close>











section \<open>The ranking of the analytics\<close>

text \<open>
  The counter holds each keyword once, with its number of occurrences, in the order of
  first occurrence.
\<close>

lemma Counter_snoc:
  "Counter (ks @ [w]) =
     AList.update w ((case map_of (Counter ks) w of None \<Rightarrow> 0 | Some n \<Rightarrow> n) + 1) (Counter ks)"
  by (simp add: Counter_def)

lemma Counter_counts:
  "map_of (Counter ks) w = (if w \<in> set ks then Some (count_list ks w) else None)"
proof (induction ks rule: rev_induct)
  case Nil
  show ?case by (simp add: Counter_def)
next
  case (snoc k ks)
  show ?case
    using snoc.IH
    by (auto simp: Counter_snoc update_conv' count_list_append)
qed

lemma Counter_keys: "set (map fst (Counter ks)) = set ks"
proof -
  have "set (map fst (Counter ks)) = dom (map_of (Counter ks))"
    by (simp add: dom_map_of_conv_image_fst)
  also have "\<dots> = set ks"
    by (auto simp: dom_def Counter_counts)
  finally show ?thesis .
qed

lemma Counter_distinct: "distinct (map fst (Counter ks))"
  by (induction ks rule: rev_induct) (simp_all add: Counter_def distinct_update)

lemma Counter_entry:
  "(w, n) \<in> set (Counter ks) \<Longrightarrow> w \<in> set ks \<and> n = count_list ks w"
proof -
  assume "(w, n) \<in> set (Counter ks)"
  then have "map_of (Counter ks) w = Some n"
    using Counter_distinct [of ks] by simp
  then show ?thesis
    by (simp add: Counter_counts split: if_splits)
qed

lemma first_occurrence_snoc_old:
  "x \<in> set ks \<Longrightarrow> first_occurrence (ks @ [w]) x = first_occurrence ks x"
  by (simp add: first_occurrence_def takeWhile_append1)

lemma first_occurrence_snoc_new:
  "w \<notin> set ks \<Longrightarrow> first_occurrence (ks @ [w]) w = length ks"
  by (induction ks) (auto simp: first_occurrence_def)

lemma first_occurrence_less: "x \<in> set ks \<Longrightarrow> first_occurrence ks x < length ks"
  by (induction ks) (auto simp: first_occurrence_def)

lemma Counter_order:
  "sorted_wrt (\<lambda>a b. first_occurrence ks a < first_occurrence ks b) (map fst (Counter ks))"
proof (induction ks rule: rev_induct)
  case Nil
  show ?case by (simp add: Counter_def)
next
  case (snoc w ks)
  let ?keys = "map fst (Counter ks)"
  have old: "sorted_wrt (\<lambda>a b. first_occurrence (ks @ [w]) a < first_occurrence (ks @ [w]) b) ?keys"
  proof (rule sorted_wrt_mono_rel [OF _ snoc.IH])
    fix a b
    assume "a \<in> set ?keys" and "b \<in> set ?keys"
      and "first_occurrence ks a < first_occurrence ks b"
    then show "first_occurrence (ks @ [w]) a < first_occurrence (ks @ [w]) b"
      by (simp add: Counter_keys first_occurrence_snoc_old del: set_map)
  qed
  show ?case
  proof (cases "w \<in> set ks")
    case True
    then have "map fst (Counter (ks @ [w])) = ?keys"
      using Counter_keys [of ks] by (simp add: Counter_snoc update_keys del: set_map)
    with old show ?thesis by simp
  next
    case False
    then have keys: "map fst (Counter (ks @ [w])) = ?keys @ [w]"
      using Counter_keys [of ks] by (simp add: Counter_snoc update_keys del: set_map)
    have "first_occurrence (ks @ [w]) a < first_occurrence (ks @ [w]) w" if "a \<in> set ?keys" for a
    proof -
      from that have "a \<in> set ks" using Counter_keys [of ks] by simp
      then show ?thesis
        using False by (simp add: first_occurrence_snoc_old first_occurrence_snoc_new first_occurrence_less)
    qed
    with old show ?thesis
      unfolding keys by (simp add: sorted_wrt_append del: set_map)
  qed
qed

text \<open>
  A stable sort by a key, on a list already ordered by \<open>R\<close>, orders by the key
  first and by \<open>R\<close> among equal keys.
\<close>

lemma insort_key_lex:
  assumes "sorted_wrt (\<lambda>a b. f a < f b \<or> (f a = f b \<and> R a b)) ys"
    and "\<forall>y \<in> set ys. R x y"
  shows "sorted_wrt (\<lambda>a b. f a < f b \<or> (f a = f b \<and> R a b)) (insort_key f x ys)"
  using assms
proof (induction ys)
  case Nil
  show ?case by simp
next
  case (Cons y ys)
  show ?case
  proof (cases "f x \<le> f y")
    case True
    have "f x < f z \<or> (f x = f z \<and> R x z)" if "z \<in> set (y # ys)" for z
    proof -
      from that Cons.prems(1) have "f y \<le> f z" by auto
      with True have "f x \<le> f z" by simp
      moreover from that Cons.prems(2) have "R x z" by blast
      ultimately show ?thesis by auto
    qed
    with True Cons.prems(1) show ?thesis by simp
  next
    case False
    from Cons.prems have "sorted_wrt (\<lambda>a b. f a < f b \<or> (f a = f b \<and> R a b)) (insort_key f x ys)"
      by (intro Cons.IH) simp_all
    with False Cons.prems(1) show ?thesis
      by (auto simp: set_insort_key)
  qed
qed

lemma sort_key_lex:
  "sorted_wrt R xs \<Longrightarrow>
     sorted_wrt (\<lambda>a b. f a < f b \<or> (f a = f b \<and> R a b)) (sort_key f xs)"
  by (induction xs) (simp_all add: insort_key_lex)

lemma ranking_sorted:
  "sorted_wrt (ranks_before ks)
     (map fst (sort_key (\<lambda>(word, count). - int count) (Counter ks)))"
proof -
  let ?f = "(\<lambda>(word, count). - int count) :: string \<times> nat \<Rightarrow> int"
  let ?R = "\<lambda>a b. first_occurrence ks (fst a) < first_occurrence ks (fst b)"
  have "sorted_wrt ?R (Counter ks)"
    using Counter_order [of ks] by (simp add: sorted_wrt_map)
  then have lex: "sorted_wrt (\<lambda>a b. ?f a < ?f b \<or> (?f a = ?f b \<and> ?R a b)) (sort_key ?f (Counter ks))"
    by (rule sort_key_lex)
  have "sorted_wrt (\<lambda>a b. ranks_before ks (fst a) (fst b)) (sort_key ?f (Counter ks))"
  proof (rule sorted_wrt_mono_rel [OF _ lex])
    fix a b
    assume "a \<in> set (sort_key ?f (Counter ks))" and "b \<in> set (sort_key ?f (Counter ks))"
    then have a: "snd a = count_list ks (fst a)" and b: "snd b = count_list ks (fst b)"
      using Counter_entry [of "fst a" "snd a" ks] Counter_entry [of "fst b" "snd b" ks]
      by simp_all
    assume "?f a < ?f b \<or> (?f a = ?f b \<and> ?R a b)"
    with a b show "ranks_before ks (fst a) (fst b)"
      by (auto simp: ranks_before_def case_prod_beta)
  qed
  then show ?thesis by (simp add: sorted_wrt_map)
qed

lemma ranking_keys:
  "set (map fst (sort_key f (Counter ks))) = set ks"
  "distinct (map fst (sort_key f (Counter ks)))"
  "length (map fst (sort_key f (Counter ks))) = card (set ks)"
proof -
  show "set (map fst (sort_key f (Counter ks))) = set ks"
    using Counter_keys [of ks] by simp
  have "distinct (map fst (Counter ks))" by (rule Counter_distinct)
  then show "distinct (map fst (sort_key f (Counter ks)))"
    by (simp add: distinct_map)
  have "card (set (map fst (Counter ks))) = length (map fst (Counter ks))"
    by (rule distinct_card) (rule Counter_distinct)
  then show "length (map fst (sort_key f (Counter ks))) = card (set ks)"
    by (simp add: Counter_keys del: set_map)
qed

text \<open>
  C5. For a category \<open>c\<close> of the system, let \<open>ks\<close> be the concatenation of the
  keyword lists of the emails of category \<open>c\<close>, in log order. The list that
  \<open>generate_keyword_analytics\<close> returns for \<open>c\<close> has 5 keywords, or all the
  distinct keywords of \<open>ks\<close> when there are fewer; they are distinct keywords of
  \<open>ks\<close>; each one ranks before the ones after it, and before every keyword of
  \<open>ks\<close> left out, where a keyword ranks before another when it occurs more often in
  \<open>ks\<close>, or as often and first occurs earlier in \<open>ks\<close>.
\<close>

theorem top_keywords_ranking:
  assumes "c \<in> set (categories s)"
    and "ks = concat (map keywords_f (filter (\<lambda>email. category email = c) (processed_emails s)))"
  shows "\<exists>r. map_of (generate_keyword_analytics s) c = Some r
    \<and> length r = min 5 (card (set ks)) \<and> distinct r \<and> set r \<subseteq> set ks
    \<and> sorted_wrt (ranks_before ks) r
    \<and> (\<forall>x \<in> set r. \<forall>w \<in> set ks - set r. ranks_before ks x w)"
proof -
  let ?T = "map fst (sort_key (\<lambda>(word, count). - int count) (Counter ks))"
  let ?r = "take 5 ?T"
  from assms have look: "map_of (generate_keyword_analytics s) c = Some ?r"
    by (simp add: analytics_lookup category_keywords_concat most_common_def take_map)
  have len: "length ?r = min 5 (card (set ks))"
    by (simp add: ranking_keys(3) del: length_map)
  have dist: "distinct ?r"
    by (rule distinct_take) (rule ranking_keys(2))
  have sub: "set ?r \<subseteq> set ks"
    using set_take_subset [of 5 ?T] by (simp only: ranking_keys(1))
  have "sorted_wrt (ranks_before ks) (?r @ drop 5 ?T)"
    by (simp only: append_take_drop_id ranking_sorted)
  then have srt: "sorted_wrt (ranks_before ks) ?r"
    and cut: "\<forall>x \<in> set ?r. \<forall>w \<in> set (drop 5 ?T). ranks_before ks x w"
    by (auto simp only: sorted_wrt_append)
  have "set ks = set ?r \<union> set (drop 5 ?T)"
    by (simp only: set_append [symmetric] append_take_drop_id ranking_keys(1))
  with cut have rest: "\<forall>x \<in> set ?r. \<forall>w \<in> set ks - set ?r. ranks_before ks x w"
    by blast
  from look len dist sub srt rest show ?thesis
    by blast
qed

theorem top_keywords_ranking_witness:
  "''Billing'' \<in> set (categories
     (init_system\<lparr>processed_emails :=
             [\<lparr>timestamp = ''T0'', sender = ''a@x.com'', subject = ''Refund'', category = ''Billing'',
               summary = ''S0'', keywords_f = [''refund'', ''charge'', ''refund''],
               channel = ''#billing''\<rparr>,
              \<lparr>timestamp = ''T1'', sender = ''b@x.com'', subject = ''Crash'',
               category = ''Product Support'', summary = ''S1'', keywords_f = [''crash''],
               channel = ''#product-support''\<rparr>,
              \<lparr>timestamp = ''T2'', sender = ''c@x.com'', subject = ''Invoice'', category = ''Billing'',
               summary = ''S2'',
               keywords_f = [''invoice'', ''charge'', ''plan'', ''card'', ''month'', ''extra''],
               channel = ''#billing''\<rparr>]\<rparr>))
   \<and> map_of (generate_keyword_analytics
     (init_system\<lparr>processed_emails :=
             [\<lparr>timestamp = ''T0'', sender = ''a@x.com'', subject = ''Refund'', category = ''Billing'',
               summary = ''S0'', keywords_f = [''refund'', ''charge'', ''refund''],
               channel = ''#billing''\<rparr>,
              \<lparr>timestamp = ''T1'', sender = ''b@x.com'', subject = ''Crash'',
               category = ''Product Support'', summary = ''S1'', keywords_f = [''crash''],
               channel = ''#product-support''\<rparr>,
              \<lparr>timestamp = ''T2'', sender = ''c@x.com'', subject = ''Invoice'', category = ''Billing'',
               summary = ''S2'',
               keywords_f = [''invoice'', ''charge'', ''plan'', ''card'', ''month'', ''extra''],
               channel = ''#billing''\<rparr>]\<rparr>)) ''Billing''
     = Some [''refund'', ''charge'', ''invoice'', ''plan'', ''card'']
   \<and> sorted_wrt
       (ranks_before
          [''refund'', ''charge'', ''refund'', ''invoice'', ''charge'', ''plan'', ''card'', ''month'',
        ''extra''])
       [''refund'', ''charge'', ''invoice'', ''plan'', ''card'']"
proof -
  let ?st = "(init_system\<lparr>processed_emails :=
             [\<lparr>timestamp = ''T0'', sender = ''a@x.com'', subject = ''Refund'', category = ''Billing'',
               summary = ''S0'', keywords_f = [''refund'', ''charge'', ''refund''],
               channel = ''#billing''\<rparr>,
              \<lparr>timestamp = ''T1'', sender = ''b@x.com'', subject = ''Crash'',
               category = ''Product Support'', summary = ''S1'', keywords_f = [''crash''],
               channel = ''#product-support''\<rparr>,
              \<lparr>timestamp = ''T2'', sender = ''c@x.com'', subject = ''Invoice'', category = ''Billing'',
               summary = ''S2'',
               keywords_f = [''invoice'', ''charge'', ''plan'', ''card'', ''month'', ''extra''],
               channel = ''#billing''\<rparr>]\<rparr>)"
  let ?ks = "[''refund'', ''charge'', ''refund'', ''invoice'', ''charge'', ''plan'', ''card'', ''month'',
        ''extra'']"
  have h1: "''Billing'' \<in> set (categories ?st)"
    by (simp add: init_system_def)
  have h2: "?ks = concat (map keywords_f
      (filter (\<lambda>email. category email = ''Billing'') (processed_emails ?st)))"
    by simp
  have v: "map_of (generate_keyword_analytics ?st) ''Billing''
      = Some [''refund'', ''charge'', ''invoice'', ''plan'', ''card'']"
    by (simp add: generate_keyword_analytics_def category_keywords_def Counter_def
        most_common_def init_system_def Let_def)
  from top_keywords_ranking [OF h1 h2] v h1 show ?thesis
    by auto
qed

end
